theory Spec2Isabelle
  imports Main "HOL-Library.Word" "HOL-Library.AList" "HOL-Library.Multiset"
begin

unbundle bit_operations_syntax

section \<open>The address tree of internal/modeling/addresstree.go\<close>

text \<open>
  The Go package stores IPv6 addresses in a trie over 4-bit symbols (nybbles). The model
  follows the source function by function.

  \<^item> A \<open>map[uint8]*AddressTreeNode\<close> is an association list from \<open>8 word\<close> keys to
    nodes: \<open>map_of\<close> is the lookup \<open>m[k]\<close>, \<open>AList.update\<close> is the store
    \<open>m[k] = v\<close>, and \<open>len(m) == 0\<close> is \<open>m = []\<close>. Go iterates a map in an
    unspecified order; the list fixes one such order, and the general theorems below are
    about sets and lengths, which do not depend on it.
  \<^item> Nodes are created by \<open>newAddressTreeNode\<close> only and are reached through exactly one
    map entry, so an in-place update through a pointer is a functional update of the
    enclosing value.
  \<^item> \<open>ChildrenCount\<close> is an \<open>int64\<close> and is an \<open>int\<close> here. Go's \<open>ChildrenCount++\<close>
    wraps from \<open>2 ^ 63 - 1\<close> to \<open>- (2 ^ 63)\<close>; the \<open>+ 1\<close> of the model agrees with it on
    every count below \<open>2 ^ 63 - 1\<close>. In a tree built by insertion every count is at most
    the number of deepest nodes held in memory, which cannot reach that bound, and the
    theorems that state the value of a count are about such trees. The theorem about
    insertion into an arbitrary tree states no value of a count after an increment.
    \<open>Depth\<close> is a \<open>uint8\<close> and is an \<open>8 word\<close>, \<open>Depth + 1\<close> wrapping as in Go.
  \<^item> Every map is one made by \<open>make\<close>, as both constructors of the source do; a nil
    map, which neither constructor builds, is not modelled.
  \<^item> A possibly nil \<open>*AddressTreeNode\<close> is an \<open>option\<close>; a nil slice and an empty slice
    are both \<open>[]\<close>.
  \<^item> A run-time panic is a value \<open>Inl p\<close>; an \<open>error\<close> result of Go is an
    \<open>error option\<close> next to the other result, as in the source.
  \<^item> Calls to the logging package only print and are left out.
\<close>

datatype AddressTreeNode =
  AddressTreeNode (nodeChildrenCount: int)
                  (nodeChildren: "(8 word \<times> AddressTreeNode) list")
                  (Depth: "8 word")

record AddressTree =
  ChildrenCount :: int
  Children :: "(8 word \<times> AddressTreeNode) list"

datatype panic = NilPointerDereference | IndexOutOfRange | IntegerDivideByZero

text \<open>The error built by \<open>fmt.Errorf\<close> in \<open>getSeekNybbles\<close>; it carries the mask size.\<close>

datatype error = UnalignedPrefix nat

text \<open>
  The package \<open>addressing\<close> is not part of the sources at hand. Its two functions used by
  the tree are parameters of the model: \<open>GetNybblesFromIP ip n\<close> gives the leading \<open>n\<close>
  nybbles of an address and \<open>NybblesToIP\<close> builds an address from nybbles.
\<close>

record 'ip addressing =
  GetNybblesFromIP :: "'ip \<Rightarrow> nat \<Rightarrow> 8 word list"
  NybblesToIP :: "8 word list \<Rightarrow> 'ip"

text \<open>
  A \<open>net.IPNet\<close>: the base address and the number of leading ones of the mask, which is
  the first result of \<open>Mask.Size()\<close> and never negative.
\<close>

record 'ip IPNet =
  IP :: 'ip
  MaskOnes :: nat

definition newAddressTree :: AddressTree where
  "newAddressTree = \<lparr>ChildrenCount = 0, Children = []\<rparr>"

definition newAddressTreeNode :: "8 word \<Rightarrow> AddressTreeNode" where
  "newAddressTreeNode depth = AddressTreeNode 0 [] depth"

subsection \<open>Node operations\<close>

fun addNybbles :: "AddressTreeNode \<Rightarrow> 8 word list \<Rightarrow> AddressTreeNode" where
  "addNybbles node [] = node"
| "addNybbles node (n # ns) =
    (let child = (case map_of (nodeChildren node) n of
                    None \<Rightarrow> newAddressTreeNode (Depth node + 1)
                  | Some c \<Rightarrow> c)
     in AddressTreeNode (nodeChildrenCount node + 1)
                        (AList.update n (addNybbles child ns) (nodeChildren node))
                        (Depth node))"

fun containsNybbles :: "AddressTreeNode \<Rightarrow> 8 word list \<Rightarrow> panic + bool" where
  "containsNybbles node [] = Inl IndexOutOfRange"
| "containsNybbles node (n # ns) =
    (case map_of (nodeChildren node) n of
       None \<Rightarrow> Inr False
     | Some val \<Rightarrow> if length (n # ns) = 1 then Inr True else containsNybbles val ns)"

fun seekNode :: "AddressTreeNode \<Rightarrow> 8 word list \<Rightarrow> AddressTreeNode option" where
  "seekNode node [] = Some node"
| "seekNode node (n # ns) =
    (case map_of (nodeChildren node) n of
       None \<Rightarrow> None
     | Some val \<Rightarrow> seekNode val ns)"

fun getAllIPs :: "'ip addressing \<Rightarrow> AddressTreeNode \<Rightarrow> 8 word list \<Rightarrow> 'ip list" where
  "getAllIPs A (AddressTreeNode cnt children depth) parentNybbles =
    (if children = [] \<and> depth \<noteq> 31 then []
     else if children = [] then [NybblesToIP A parentNybbles]
     else concat (map (\<lambda>(k, v). getAllIPs A v (parentNybbles @ [k])) children))"

fun getAllIPsInRange ::
  "'ip addressing \<Rightarrow> AddressTreeNode \<Rightarrow> 8 word list \<Rightarrow> 8 word list \<Rightarrow> 'ip list" where
  "getAllIPsInRange A node parentNybbles [] = getAllIPs A node parentNybbles"
| "getAllIPsInRange A node parentNybbles (n # ns) =
    (case map_of (nodeChildren node) n of
       None \<Rightarrow> []
     | Some val \<Rightarrow> getAllIPsInRange A val (parentNybbles @ [n]) ns)"

subsection \<open>Tree operations\<close>

definition containsIPByNybbles :: "AddressTree \<Rightarrow> 8 word list \<Rightarrow> panic + bool" where
  "containsIPByNybbles addrTree nybbles =
    (case nybbles of
       [] \<Rightarrow> Inl IndexOutOfRange
     | n # ns \<Rightarrow>
        (case map_of (Children addrTree) n of
           None \<Rightarrow> Inr False
         | Some val \<Rightarrow> containsNybbles val ns))"

definition ContainsIP :: "'ip addressing \<Rightarrow> AddressTree \<Rightarrow> 'ip \<Rightarrow> panic + bool" where
  "ContainsIP A addrTree toCheck =
    (let nybs = GetNybblesFromIP A toCheck 32 in containsIPByNybbles addrTree nybs)"

text \<open>
  \<open>AddIP\<close> returns the tree after the call next to its result. Both places where it can
  panic come before the first store, so the tree is the unchanged one there.
\<close>

definition AddIP ::
  "'ip addressing \<Rightarrow> AddressTree \<Rightarrow> 'ip \<Rightarrow> AddressTree \<times> (panic + bool)" where
  "AddIP A addrTree toAdd =
    (let ipNybbles = GetNybblesFromIP A toAdd 32 in
     case containsIPByNybbles addrTree ipNybbles of
       Inl p \<Rightarrow> (addrTree, Inl p)
     | Inr True \<Rightarrow> (addrTree, Inr False)
     | Inr False \<Rightarrow>
        (case ipNybbles of
           [] \<Rightarrow> (addrTree, Inl IndexOutOfRange)
         | n # ns \<Rightarrow>
            (let child = (case map_of (Children addrTree) n of
                            None \<Rightarrow> newAddressTreeNode 0
                          | Some c \<Rightarrow> c)
             in (\<lparr>ChildrenCount = ChildrenCount addrTree + 1,
                  Children = AList.update n (addNybbles child ns) (Children addrTree)\<rparr>,
                 Inr True))))"

text \<open>
  The loop of \<open>AddIPs\<close>, with the loop index and both counters as arguments. The only
  effect of \<open>i % emitFreq\<close> on the result is the panic when \<open>emitFreq\<close> is zero.
\<close>

fun AddIPs_loop ::
  "'ip addressing \<Rightarrow> int \<Rightarrow> AddressTree \<Rightarrow> int \<Rightarrow> int \<Rightarrow> int \<Rightarrow> 'ip list
     \<Rightarrow> AddressTree \<times> (panic + int \<times> int)" where
  "AddIPs_loop A emitFreq addrTree i added skipped [] = (addrTree, Inr (added, skipped))"
| "AddIPs_loop A emitFreq addrTree i added skipped (curAdd # rest) =
    (if emitFreq = 0 then (addrTree, Inl IntegerDivideByZero)
     else (case AddIP A addrTree curAdd of
             (t, Inl p) \<Rightarrow> (t, Inl p)
           | (t, Inr True) \<Rightarrow> AddIPs_loop A emitFreq t (i + 1) (added + 1) skipped rest
           | (t, Inr False) \<Rightarrow> AddIPs_loop A emitFreq t (i + 1) added (skipped + 1) rest))"

definition AddIPs ::
  "'ip addressing \<Rightarrow> AddressTree \<Rightarrow> 'ip list \<Rightarrow> int \<Rightarrow> AddressTree \<times> (panic + int \<times> int)"
  where
  "AddIPs A addrTree toAdd emitFreq = AddIPs_loop A emitFreq addrTree 0 0 0 toAdd"

definition CreateFromAddresses ::
  "'ip addressing \<Rightarrow> 'ip list \<Rightarrow> int \<Rightarrow> panic + AddressTree" where
  "CreateFromAddresses A toAdd emitFreq =
    (case AddIPs A newAddressTree toAdd emitFreq of
       (t, Inl p) \<Rightarrow> Inl p
     | (t, Inr r) \<Rightarrow> Inr t)"

definition GetAllIPs :: "'ip addressing \<Rightarrow> AddressTree \<Rightarrow> 'ip list" where
  "GetAllIPs A addrTree =
    (if ChildrenCount addrTree = 0 then []
     else concat (map (\<lambda>(k, v). getAllIPs A v [k]) (Children addrTree)))"

definition seekChildByNybbles ::
  "AddressTree \<Rightarrow> 8 word list \<Rightarrow> panic + (AddressTreeNode option \<times> error option)" where
  "seekChildByNybbles addrTree nybbles =
    (case nybbles of
       [] \<Rightarrow> Inl IndexOutOfRange
     | n # ns \<Rightarrow>
        (case map_of (Children addrTree) n of
           None \<Rightarrow> Inr (None, None)
         | Some val \<Rightarrow> Inr (seekNode val ns, None)))"

definition getSeekNybbles ::
  "'ip addressing \<Rightarrow> 'ip IPNet \<Rightarrow> 8 word list \<times> error option" where
  "getSeekNybbles A fromRange =
    (let ones = MaskOnes fromRange in
     if ones mod 4 \<noteq> 0 then ([], Some (UnalignedPrefix ones))
     else (GetNybblesFromIP A (IP fromRange) (ones div 4), None))"

definition GetIPsInRange ::
  "'ip addressing \<Rightarrow> AddressTree \<Rightarrow> 'ip IPNet \<Rightarrow> panic + ('ip list \<times> error option)" where
  "GetIPsInRange A addrTree fromRange =
    (case getSeekNybbles A fromRange of
       (networkNybbles, Some err) \<Rightarrow> Inr ([], Some err)
     | (networkNybbles, None) \<Rightarrow>
        if length networkNybbles = 0 then Inr (GetAllIPs A addrTree, None)
        else (case seekChildByNybbles addrTree networkNybbles of
                Inl p \<Rightarrow> Inl p
              | Inr (child, Some err) \<Rightarrow> Inr ([], Some err)
              | Inr (None, None) \<Rightarrow> Inl NilPointerDereference
              | Inr (Some node, None) \<Rightarrow> Inr (getAllIPs A node networkNybbles, None)))"

definition CountIPsInRange ::
  "'ip addressing \<Rightarrow> AddressTree \<Rightarrow> 'ip IPNet \<Rightarrow> panic + (int \<times> error option)" where
  "CountIPsInRange A addrTree fromRange =
    (case getSeekNybbles A fromRange of
       (networkNybbles, Some err) \<Rightarrow> Inr (- 1, Some err)
     | (networkNybbles, None) \<Rightarrow>
        if length networkNybbles = 0 then Inr (ChildrenCount addrTree, None)
        else if length networkNybbles = 32 then
          (case containsIPByNybbles addrTree networkNybbles of
             Inl p \<Rightarrow> Inl p
           | Inr True \<Rightarrow> Inr (1, None)
           | Inr False \<Rightarrow> Inr (0, None))
        else (case seekChildByNybbles addrTree networkNybbles of
                Inl p \<Rightarrow> Inl p
              | Inr (child, Some err) \<Rightarrow> Inr (- 1, Some err)
              | Inr (None, None) \<Rightarrow> Inl NilPointerDereference
              | Inr (Some node, None) \<Rightarrow> Inr (nodeChildrenCount node, None)))"

subsection \<open>A symbol codec and example inputs\<close>

text \<open>
  Modelled from the spec: the symbol codec of package \<open>addressing\<close>, which is not among
  the sources. An address is its sequence of bytes (a \<open>net.IP\<close> of 16 bytes);
  \<open>to_symbols\<close> gives the leading symbols, most significant first, each in \<open>[0, 15]\<close>,
  and \<open>from_symbols\<close> puts pairs of symbols back into bytes. The theorems below take the
  codec as a parameter; this instance is used where a concrete input is evaluated.
\<close>

definition to_symbols :: "8 word list \<Rightarrow> nat \<Rightarrow> 8 word list" where
  "to_symbols address symbol_count =
     take symbol_count (concat (map (\<lambda>b. [drop_bit 4 b, b AND 15]) address))"

fun from_symbols :: "8 word list \<Rightarrow> 8 word list" where
  "from_symbols (h # l # rest) = (push_bit 4 h OR l) # from_symbols rest"
| "from_symbols [h] = [push_bit 4 h]"
| "from_symbols [] = []"

definition nybbleCodec :: "8 word list addressing" where
  "nybbleCodec = \<lparr>GetNybblesFromIP = to_symbols, NybblesToIP = from_symbols\<rparr>"

text \<open>The addresses 2001:db8::1, 2001:db8::2, 2001:db8::3, 3000:: and 2100::.\<close>

definition ip1 :: "8 word list" where
  "ip1 = [0x20, 0x01, 0x0d, 0xb8, 0, 0, 0, 0, 0, 0, 0, 0, 0, 0, 0, 1]"

definition ip2 :: "8 word list" where
  "ip2 = [0x20, 0x01, 0x0d, 0xb8, 0, 0, 0, 0, 0, 0, 0, 0, 0, 0, 0, 2]"

definition ip3 :: "8 word list" where
  "ip3 = [0x20, 0x01, 0x0d, 0xb8, 0, 0, 0, 0, 0, 0, 0, 0, 0, 0, 0, 3]"

definition ip4 :: "8 word list" where
  "ip4 = [0x30, 0, 0, 0, 0, 0, 0, 0, 0, 0, 0, 0, 0, 0, 0, 0]"

definition ip5 :: "8 word list" where
  "ip5 = [0x21, 0, 0, 0, 0, 0, 0, 0, 0, 0, 0, 0, 0, 0, 0, 0]"

text \<open>The tree after inserting 2001:db8::1, 2001:db8::2 and 2001:db8::1 again.\<close>

definition exampleTree :: AddressTree where
  "exampleTree = fst (AddIPs nybbleCodec newAddressTree [ip1, ip2, ip1] 1)"

subsection \<open>Full-depth paths and the shape of a tree built by insertion\<close>

text \<open>
  \<open>pathsBelow n node\<close> lists the symbol sequences of the downward paths of exactly \<open>n\<close>
  edges that start at \<open>node\<close>; \<open>childPaths n children\<close> does so for a children map, one
  edge more. \<open>fullDepthPaths\<close> lists the paths of 32 symbols from the root, and
  \<open>fullDepthPathsThrough t p\<close> those of them that pass through the node at position \<open>p\<close>,
  that is, those that begin with \<open>p\<close>.
\<close>

fun pathsBelow :: "nat \<Rightarrow> AddressTreeNode \<Rightarrow> 8 word list list" where
  "pathsBelow 0 node = [[]]"
| "pathsBelow (Suc n) node =
     concat (map (\<lambda>(k, v). map ((#) k) (pathsBelow n v)) (nodeChildren node))"

definition childPaths :: "nat \<Rightarrow> (8 word \<times> AddressTreeNode) list \<Rightarrow> 8 word list list" where
  "childPaths n children = concat (map (\<lambda>(k, v). map ((#) k) (pathsBelow n v)) children)"

definition fullDepthPaths :: "AddressTree \<Rightarrow> 8 word list list" where
  "fullDepthPaths addrTree = childPaths 31 (Children addrTree)"

definition fullDepthPathsThrough :: "AddressTree \<Rightarrow> 8 word list \<Rightarrow> 8 word list list" where
  "fullDepthPathsThrough addrTree p =
     filter (\<lambda>s. take (length p) s = p) (fullDepthPaths addrTree)"

text \<open>
  The invariant of a node with \<open>n\<close> levels below it, in a tree that insertion built: its
  depth is \<open>31 - n\<close>, its keys are distinct, and its count is the number of paths below
  it, except at the deepest level, where the node has no children and its count is 0.
  A node that insertion has just created and not yet filled satisfies it with no path.
\<close>

fun nodeInv :: "nat \<Rightarrow> AddressTreeNode \<Rightarrow> bool" where
  "nodeInv 0 node =
     (Depth node = 31 \<and> nodeChildren node = [] \<and> nodeChildrenCount node = 0)"
| "nodeInv (Suc n) node =
     (n \<le> 30 \<and> Depth node = of_nat (30 - n) \<and>
      distinct (map fst (nodeChildren node)) \<and>
      nodeChildrenCount node = int (length (pathsBelow (Suc n) node)) \<and>
      (\<forall>(k, v) \<in> set (nodeChildren node). nodeInv n v))"

definition childInv :: "nat \<Rightarrow> (8 word \<times> AddressTreeNode) list \<Rightarrow> bool" where
  "childInv n children =
     (distinct (map fst children) \<and> (\<forall>(k, v) \<in> set children. nodeInv n v))"

definition treeInv :: "AddressTree \<Rightarrow> bool" where
  "treeInv addrTree =
     (childInv 31 (Children addrTree) \<and>
      ChildrenCount addrTree = int (length (fullDepthPaths addrTree)))"

text \<open>
  \<open>clearCounts\<close> and \<open>clearTreeCounts\<close> set every count field to 0 and keep the children
  maps and depths. Two trees with the same image differ in count fields only.
\<close>

fun clearCounts :: "AddressTreeNode \<Rightarrow> AddressTreeNode" where
  "clearCounts (AddressTreeNode cnt children depth) =
     AddressTreeNode 0 (map (\<lambda>(k, v). (k, clearCounts v)) children) depth"

definition clearTreeCounts :: "AddressTree \<Rightarrow> AddressTree" where
  "clearTreeCounts addrTree =
     \<lparr>ChildrenCount = 0,
      Children = map (\<lambda>(k, v). (k, clearCounts v)) (Children addrTree)\<rparr>"

section \<open>Membership and the walk to a node\<close>

lemma containsNybbles_seekNode:
  "ns \<noteq> [] \<Longrightarrow> containsNybbles node ns = Inr (seekNode node ns \<noteq> None)"
proof (induction ns arbitrary: node)
  case Nil
  then show ?case by simp
next
  case (Cons n ns)
  show ?case
  proof (cases "map_of (nodeChildren node) n")
    case None
    then show ?thesis by simp
  next
    case (Some val)
    show ?thesis
    proof (cases ns)
      case Nil
      with Some show ?thesis by simp
    next
      case (Cons m ms)
      with Some Cons.IH [of val] show ?thesis by simp
    qed
  qed
qed

lemma seekNode_addNybbles: "seekNode (addNybbles node ns) ns \<noteq> None"
proof (induction ns arbitrary: node)
  case Nil
  show ?case by simp
next
  case (Cons n ns)
  show ?case by (simp add: Let_def update_conv' Cons.IH)
qed

lemma containsIPByNybbles_seek:
  assumes "ns \<noteq> []"
  shows "containsIPByNybbles t (n # ns) =
     Inr (\<exists>node. seekChildByNybbles t (n # ns) = Inr (Some node, None))"
  using assms
  by (auto simp: containsIPByNybbles_def seekChildByNybbles_def containsNybbles_seekNode
           split: option.splits)

lemma long_list_cases:
  assumes "length xs = 32"
  obtains n ns where "xs = n # ns" and "ns \<noteq> []"
  using assms by (cases xs; cases "tl xs") auto

lemma map_of_clearCounts:
  "map_of (map (\<lambda>(k, v). (k, clearCounts v)) ch) c = map_option clearCounts (map_of ch c)"
  by (induction ch) auto

lemma seekNode_clearCounts:
  "seekNode (clearCounts node) p = map_option clearCounts (seekNode node p)"
proof (induction p arbitrary: node)
  case Nil
  show ?case by simp
next
  case (Cons c p)
  obtain cnt ch d where node: "node = AddressTreeNode cnt ch d" by (cases node)
  show ?case
    by (cases "map_of ch c") (simp_all add: node map_of_clearCounts Cons.IH)
qed

lemma seekChild_clearTreeCounts:
  "(\<exists>node. seekChildByNybbles (clearTreeCounts t) p = Inr (Some node, None))
     \<longleftrightarrow> (\<exists>node. seekChildByNybbles t p = Inr (Some node, None))"
proof (cases p)
  case Nil
  then show ?thesis by (simp add: seekChildByNybbles_def)
next
  case (Cons c cs)
  show ?thesis
    by (cases "map_of (Children t) c")
       (auto simp: Cons seekChildByNybbles_def clearTreeCounts_def map_of_clearCounts
                   seekNode_clearCounts)
qed

text \<open>The two operations on a prefix of 128 bits, by the existence of the 32-symbol path.\<close>

lemma full_width_count:
  assumes "MaskOnes P = 128" and len: "length (GetNybblesFromIP A (IP P) 32) = 32"
  shows "CountIPsInRange A t P
           = Inr (if \<exists>node. seekChildByNybbles t (GetNybblesFromIP A (IP P) 32)
                               = Inr (Some node, None)
                  then 1 else 0, None)"
    and "ContainsIP A t (IP P)
           = Inr (\<exists>node. seekChildByNybbles t (GetNybblesFromIP A (IP P) 32)
                            = Inr (Some node, None))"
proof -
  from len obtain n ns where s: "GetNybblesFromIP A (IP P) 32 = n # ns" and ns: "ns \<noteq> []"
    by (rule long_list_cases)
  from len s have l: "length (n # ns) = 32" by simp
  have g: "getSeekNybbles A P = (n # ns, None)"
    using assms(1) s by (simp add: getSeekNybbles_def)
  show "ContainsIP A t (IP P)
           = Inr (\<exists>node. seekChildByNybbles t (GetNybblesFromIP A (IP P) 32)
                            = Inr (Some node, None))"
    by (simp add: ContainsIP_def s containsIPByNybbles_seek [OF ns])
  show "CountIPsInRange A t P
           = Inr (if \<exists>node. seekChildByNybbles t (GetNybblesFromIP A (IP P) 32)
                               = Inr (Some node, None)
                  then 1 else 0, None)"
    unfolding CountIPsInRange_def g s using l
    by (simp add: containsIPByNybbles_seek [OF ns])
qed

lemma AddIP_unfold:
  assumes "GetNybblesFromIP A toAdd 32 = n # ns" and "ns \<noteq> []"
  shows "AddIP A t toAdd =
    (if \<exists>node. seekChildByNybbles t (n # ns) = Inr (Some node, None) then (t, Inr False)
     else (\<lparr>ChildrenCount = ChildrenCount t + 1,
            Children = AList.update n
              (addNybbles (case map_of (Children t) n of
                             None \<Rightarrow> newAddressTreeNode 0 | Some c \<Rightarrow> c) ns)
              (Children t)\<rparr>, Inr True))"
  unfolding AddIP_def Let_def assms(1)
  by (simp add: containsIPByNybbles_seek [OF assms(2)])

lemma AddIP_total:
  assumes "length (GetNybblesFromIP A a 32) = 32"
  shows "\<exists>t' b. AddIP A t a = (t', Inr b)"
proof -
  from assms obtain n ns where s: "GetNybblesFromIP A a 32 = n # ns" and ns: "ns \<noteq> []"
    by (rule long_list_cases)
  show ?thesis by (auto simp: AddIP_unfold [OF s ns])
qed

lemma AddIPs_loop_total:
  "emitFreq \<noteq> 0 \<Longrightarrow> \<forall>a\<in>set toAdd. length (GetNybblesFromIP A a 32) = 32 \<Longrightarrow>
   \<exists>t' added' skipped'.
      AddIPs_loop A emitFreq t i added skipped toAdd = (t', Inr (added', skipped'))
      \<and> added' + skipped' = added + skipped + int (length toAdd)"
proof (induction toAdd arbitrary: t i added skipped)
  case Nil
  show ?case by simp
next
  case (Cons a rest)
  from Cons.prems have "length (GetNybblesFromIP A a 32) = 32" by simp
  from AddIP_total [OF this, of t] obtain t1 b where a: "AddIP A t a = (t1, Inr b)" by blast
  from Cons.prems have r: "\<forall>a\<in>set rest. length (GetNybblesFromIP A a 32) = 32" by simp
  show ?case
  proof (cases b)
    case True
    from Cons.IH [OF Cons.prems(1) r, of t1 "i + 1" "added + 1" skipped]
    show ?thesis using Cons.prems(1) a True by auto
  next
    case False
    from Cons.IH [OF Cons.prems(1) r, of t1 "i + 1" added "skipped + 1"]
    show ?thesis using Cons.prems(1) a False by auto
  qed
qed

text \<open>
  The unused sibling \<open>getAllIPsInRange\<close> answers a missing child with the empty list,
  where \<open>GetIPsInRange\<close> and \<open>CountIPsInRange\<close> go on with the nil pointer that
  \<open>seekChildByNybbles\<close> returned.
\<close>

lemma getAllIPsInRange_missing:
  "map_of (nodeChildren node) n = None \<Longrightarrow> getAllIPsInRange A node parentNybbles (n # ns) = []"
  by simp

section \<open>Prefix queries on a prefix that is not in the tree\<close>

text \<open>
  C1. The claim: for a symbol-aligned prefix that is non-empty, shorter than the full
  width and does not resolve to a node, \<open>GetIPsInRange\<close> returns the empty sequence and
  \<open>CountIPsInRange\<close> returns 0, both without error. The code does not: in the tree
  holding 2001:db8::1 and 2001:db8::2, the prefix 3000::/4 has no node, the seek returns a
  nil node with a nil error, and both operations dereference it.
\<close>

theorem C1_missing_prefix_nil_dereference:
  "GetIPsInRange nybbleCodec exampleTree \<lparr>IP = ip4, MaskOnes = 4\<rparr>
     = Inl NilPointerDereference
   \<and> CountIPsInRange nybbleCodec exampleTree \<lparr>IP = ip4, MaskOnes = 4\<rparr>
     = Inl NilPointerDereference"
  by code_simp

text \<open>
  C2. The claim: no operation panics on a well-formed address or prefix. The code does, by
  the same nil dereference: \<open>GetIPsInRange\<close> on the full-width prefix 2001:db8::3/128 of
  an absent address, \<open>CountIPsInRange\<close> on 2100::/8 whose second symbol is missing below
  an existing first one, and \<open>GetIPsInRange\<close> on any non-empty prefix of the empty tree.
\<close>

theorem C2_prefix_queries_panic:
  "GetIPsInRange nybbleCodec exampleTree \<lparr>IP = ip3, MaskOnes = 128\<rparr>
     = Inl NilPointerDereference
   \<and> CountIPsInRange nybbleCodec exampleTree \<lparr>IP = ip5, MaskOnes = 8\<rparr>
     = Inl NilPointerDereference
   \<and> GetIPsInRange nybbleCodec newAddressTree \<lparr>IP = ip1, MaskOnes = 64\<rparr>
     = Inl NilPointerDereference"
  by code_simp

section \<open>Duplicate insertion\<close>

text \<open>
  C4. When the full-depth path of an address already exists in a tree, \<open>AddIP\<close> returns
  false (duplicate) and the tree it leaves is the tree it was given, every children map
  and every count field of it. When the path does not exist, \<open>AddIP\<close> returns true
  (added), and a second \<open>AddIP\<close> of the same address returns false and leaves the tree,
  and so the total count, as the first call left it. This holds for every tree, given
  that the codec returns the 32 symbols it was asked for. Nothing is said of the value
  the first call gives to a count.
\<close>

theorem C4_duplicate_insert_unchanged:
  assumes len: "length (GetNybblesFromIP A toAdd 32) = 32"
  shows "((\<exists>node. seekChildByNybbles t (GetNybblesFromIP A toAdd 32) = Inr (Some node, None))
           \<longrightarrow> AddIP A t toAdd = (t, Inr False))
    \<and> (\<not> (\<exists>node. seekChildByNybbles t (GetNybblesFromIP A toAdd 32) = Inr (Some node, None))
           \<longrightarrow> (\<exists>t'. AddIP A t toAdd = (t', Inr True)
                    \<and> AddIP A t' toAdd = (t', Inr False)
                    \<and> ChildrenCount (fst (AddIP A t' toAdd)) = ChildrenCount t'))"
proof -
  from len obtain n ns where s: "GetNybblesFromIP A toAdd 32 = n # ns" and ns: "ns \<noteq> []"
    by (rule long_list_cases)
  note u = AddIP_unfold [OF s ns]
  define child where "child = (case map_of (Children t) n of
                            None \<Rightarrow> newAddressTreeNode 0 | Some c \<Rightarrow> c)"
  define t' where "t' = \<lparr>ChildrenCount = ChildrenCount t + 1,
                  Children = AList.update n (addNybbles child ns) (Children t)\<rparr>"
  have "seekChildByNybbles t' (n # ns) = Inr (seekNode (addNybbles child ns) ns, None)"
    by (simp add: seekChildByNybbles_def t'_def update_conv')
  with seekNode_addNybbles [of child ns]
  have ex: "\<exists>node. seekChildByNybbles t' (n # ns) = Inr (Some node, None)" by auto
  have a2: "AddIP A t' toAdd = (t', Inr False)"
    using ex by (simp add: u)
  have a1: "\<not> (\<exists>node. seekChildByNybbles t (n # ns) = Inr (Some node, None))
      \<Longrightarrow> AddIP A t toAdd = (t', Inr True)"
    by (simp add: u t'_def child_def)
  show ?thesis
    unfolding s using a1 a2 by (auto simp: u)
qed

theorem C4_duplicate_insert_unchanged_witness:
  "length (GetNybblesFromIP nybbleCodec ip3 32) = 32
   \<and> \<not> (\<exists>node. seekChildByNybbles exampleTree (GetNybblesFromIP nybbleCodec ip3 32)
                  = Inr (Some node, None))
   \<and> (\<exists>t'. AddIP nybbleCodec exampleTree ip3 = (t', Inr True)
            \<and> AddIP nybbleCodec t' ip3 = (t', Inr False)
            \<and> ChildrenCount (fst (AddIP nybbleCodec t' ip3)) = ChildrenCount t')
   \<and> length (GetNybblesFromIP nybbleCodec ip1 32) = 32
   \<and> (\<exists>node. seekChildByNybbles exampleTree (GetNybblesFromIP nybbleCodec ip1 32)
                = Inr (Some node, None))
   \<and> AddIP nybbleCodec exampleTree ip1 = (exampleTree, Inr False)"
proof -
  have h3: "length (GetNybblesFromIP nybbleCodec ip3 32) = 32" by code_simp
  have h1: "length (GetNybblesFromIP nybbleCodec ip1 32) = 32" by code_simp
  have n3: "seekChildByNybbles exampleTree (GetNybblesFromIP nybbleCodec ip3 32)
              = Inr (None, None)"
    by code_simp
  have n1: "seekChildByNybbles exampleTree (GetNybblesFromIP nybbleCodec ip1 32)
              = Inr (Some (AddressTreeNode 0 [] 31), None)"
    by code_simp
  from n3 have a: "\<not> (\<exists>node. seekChildByNybbles exampleTree
                      (GetNybblesFromIP nybbleCodec ip3 32) = Inr (Some node, None))"
    by simp
  from n1 have b: "\<exists>node. seekChildByNybbles exampleTree
                      (GetNybblesFromIP nybbleCodec ip1 32) = Inr (Some node, None)"
    by simp
  from C4_duplicate_insert_unchanged [OF h3, of exampleTree]
       C4_duplicate_insert_unchanged [OF h1, of exampleTree] a b h1 h3
  show ?thesis by blast
qed

section \<open>Full-width prefixes\<close>

text \<open>
  C6. For every tree and every prefix of 128 bits (32 symbols), \<open>CountIPsInRange\<close>
  returns 1 with no error when the 32-symbol path of the base address exists in the tree
  and 0 with no error when it does not, and \<open>ContainsIP\<close> of the base address is true
  in the first case and false in the second. The result does not depend on any count
  field: a tree that differs from the given one in count fields only gets the same
  answer.
\<close>

theorem C6_full_width_count_is_membership:
  assumes "MaskOnes P = 128" and len: "length (GetNybblesFromIP A (IP P) 32) = 32"
  shows "CountIPsInRange A t P
           = Inr (if \<exists>node. seekChildByNybbles t (GetNybblesFromIP A (IP P) 32)
                               = Inr (Some node, None)
                  then 1 else 0, None)
       \<and> ContainsIP A t (IP P)
           = Inr (\<exists>node. seekChildByNybbles t (GetNybblesFromIP A (IP P) 32)
                            = Inr (Some node, None))
       \<and> (clearTreeCounts t2 = clearTreeCounts t \<longrightarrow>
            CountIPsInRange A t2 P = CountIPsInRange A t P)"
proof -
  let ?s = "GetNybblesFromIP A (IP P) 32"
  have "CountIPsInRange A t2 P = CountIPsInRange A t P"
    if eq: "clearTreeCounts t2 = clearTreeCounts t"
  proof -
    have "(\<exists>node. seekChildByNybbles t2 ?s = Inr (Some node, None))
            \<longleftrightarrow> (\<exists>node. seekChildByNybbles (clearTreeCounts t2) ?s = Inr (Some node, None))"
      by (simp only: seekChild_clearTreeCounts)
    also have "\<dots> \<longleftrightarrow> (\<exists>node. seekChildByNybbles t ?s = Inr (Some node, None))"
      unfolding eq by (simp only: seekChild_clearTreeCounts)
    finally show ?thesis
      by (simp only: full_width_count(1) [OF assms])
  qed
  with full_width_count [OF assms, of t] show ?thesis by blast
qed

theorem C6_full_width_count_is_membership_witness:
  "MaskOnes \<lparr>IP = ip1, MaskOnes = 128\<rparr> = 128
   \<and> length (GetNybblesFromIP nybbleCodec (IP \<lparr>IP = ip1, MaskOnes = 128\<rparr>) 32) = 32
   \<and> seekChildByNybbles exampleTree
        (GetNybblesFromIP nybbleCodec (IP \<lparr>IP = ip1, MaskOnes = 128\<rparr>) 32)
       = Inr (Some (AddressTreeNode 0 [] 31), None)
   \<and> CountIPsInRange nybbleCodec exampleTree \<lparr>IP = ip1, MaskOnes = 128\<rparr> = Inr (1, None)
   \<and> ContainsIP nybbleCodec exampleTree (IP \<lparr>IP = ip1, MaskOnes = 128\<rparr>) = Inr True
   \<and> clearTreeCounts (clearTreeCounts exampleTree) = clearTreeCounts exampleTree
   \<and> CountIPsInRange nybbleCodec (clearTreeCounts exampleTree)
        \<lparr>IP = ip1, MaskOnes = 128\<rparr> = Inr (1, None)
   \<and> MaskOnes \<lparr>IP = ip3, MaskOnes = 128\<rparr> = 128
   \<and> length (GetNybblesFromIP nybbleCodec (IP \<lparr>IP = ip3, MaskOnes = 128\<rparr>) 32) = 32
   \<and> seekChildByNybbles exampleTree
        (GetNybblesFromIP nybbleCodec (IP \<lparr>IP = ip3, MaskOnes = 128\<rparr>) 32)
       = Inr (None, None)
   \<and> CountIPsInRange nybbleCodec exampleTree \<lparr>IP = ip3, MaskOnes = 128\<rparr> = Inr (0, None)
   \<and> ContainsIP nybbleCodec exampleTree (IP \<lparr>IP = ip3, MaskOnes = 128\<rparr>) = Inr False"
proof -
  let ?P1 = "\<lparr>IP = ip1, MaskOnes = 128\<rparr>" and ?P3 = "\<lparr>IP = ip3, MaskOnes = 128\<rparr>"
  have m1: "MaskOnes ?P1 = 128" and m3: "MaskOnes ?P3 = 128" by simp_all
  have l1: "length (GetNybblesFromIP nybbleCodec (IP ?P1) 32) = 32" by code_simp
  have l3: "length (GetNybblesFromIP nybbleCodec (IP ?P3) 32) = 32" by code_simp
  have s1: "seekChildByNybbles exampleTree (GetNybblesFromIP nybbleCodec (IP ?P1) 32)
              = Inr (Some (AddressTreeNode 0 [] 31), None)"
    by code_simp
  have s3: "seekChildByNybbles exampleTree (GetNybblesFromIP nybbleCodec (IP ?P3) 32)
              = Inr (None, None)"
    by code_simp
  have e: "clearTreeCounts (clearTreeCounts exampleTree) = clearTreeCounts exampleTree"
    by code_simp
  from C6_full_width_count_is_membership
         [OF m1 l1, of exampleTree "clearTreeCounts exampleTree"]
       C6_full_width_count_is_membership [OF m3 l3, of exampleTree exampleTree]
       m1 m3 l1 l3 s1 s3 e
  show ?thesis by simp
qed

section \<open>Unaligned prefixes\<close>

text \<open>
  C7. For every prefix whose bit length is not a multiple of 4, \<open>GetIPsInRange\<close> and
  \<open>CountIPsInRange\<close> both return the \<open>UnalignedPrefix\<close> error carrying that bit length.
  The result is the same for every tree, so the tree is not walked, and neither
  operation returns a tree, so none is changed.
\<close>

theorem C7_unaligned_prefix_rejected:
  assumes "MaskOnes fromRange mod 4 \<noteq> 0"
  shows "GetIPsInRange A addrTree fromRange
           = Inr ([], Some (UnalignedPrefix (MaskOnes fromRange)))
       \<and> CountIPsInRange A addrTree fromRange
           = Inr (- 1, Some (UnalignedPrefix (MaskOnes fromRange)))"
  using assms by (simp add: GetIPsInRange_def CountIPsInRange_def getSeekNybbles_def Let_def)

theorem C7_unaligned_prefix_rejected_witness:
  "MaskOnes \<lparr>IP = ip1, MaskOnes = 6\<rparr> mod 4 \<noteq> 0
   \<and> GetIPsInRange nybbleCodec exampleTree \<lparr>IP = ip1, MaskOnes = 6\<rparr>
       = Inr ([], Some (UnalignedPrefix 6))
   \<and> CountIPsInRange nybbleCodec exampleTree \<lparr>IP = ip1, MaskOnes = 6\<rparr>
       = Inr (- 1, Some (UnalignedPrefix 6))"
proof -
  have h: "MaskOnes \<lparr>IP = ip1, MaskOnes = 6\<rparr> mod 4 \<noteq> 0" by simp
  from C7_unaligned_prefix_rejected [OF h, of nybbleCodec exampleTree] h
  show ?thesis by simp
qed

section \<open>Bulk insertion and the progress interval\<close>

text \<open>
  C9. \<open>AddIPs\<close> with \<open>emitFreq = 0\<close> on a non-empty list panics with an integer division
  by zero in the first iteration and leaves the tree as it was given. With any non-zero
  \<open>emitFreq\<close> (so with every \<open>emitFreq \<ge> 1\<close>), and a codec that returns 32 symbols for
  each address, it returns normally and the two counters add up to the number of
  addresses.
\<close>

theorem C9_AddIPs_zero_interval_panics:
  "(toAdd \<noteq> [] \<longrightarrow> AddIPs A t toAdd 0 = (t, Inl IntegerDivideByZero))
   \<and> (emitFreq \<noteq> 0 \<and> (\<forall>a\<in>set toAdd. length (GetNybblesFromIP A a 32) = 32) \<longrightarrow>
        (\<exists>t' added skipped. AddIPs A t toAdd emitFreq = (t', Inr (added, skipped))
           \<and> added + skipped = int (length toAdd)))"
proof
  show "toAdd \<noteq> [] \<longrightarrow> AddIPs A t toAdd 0 = (t, Inl IntegerDivideByZero)"
    by (cases toAdd) (simp_all add: AddIPs_def)
  show "emitFreq \<noteq> 0 \<and> (\<forall>a\<in>set toAdd. length (GetNybblesFromIP A a 32) = 32) \<longrightarrow>
        (\<exists>t' added skipped. AddIPs A t toAdd emitFreq = (t', Inr (added, skipped))
           \<and> added + skipped = int (length toAdd))"
    using AddIPs_loop_total [of emitFreq toAdd A t 0 0 0] by (auto simp: AddIPs_def)
qed

theorem C9_AddIPs_zero_interval_panics_witness:
  "[ip1, ip2, ip1] \<noteq> []
   \<and> AddIPs nybbleCodec newAddressTree [ip1, ip2, ip1] 0
       = (newAddressTree, Inl IntegerDivideByZero)
   \<and> (3::int) \<noteq> 0
   \<and> length (GetNybblesFromIP nybbleCodec ip1 32) = 32
   \<and> length (GetNybblesFromIP nybbleCodec ip2 32) = 32
   \<and> (\<exists>t' added skipped.
         AddIPs nybbleCodec newAddressTree [ip1, ip2, ip1] 3 = (t', Inr (added, skipped))
         \<and> added + skipped = int (length [ip1, ip2, ip1]))"
proof -
  have h: "\<forall>a\<in>set [ip1, ip2, ip1]. length (GetNybblesFromIP nybbleCodec a 32) = 32"
    by code_simp
  from C9_AddIPs_zero_interval_panics [of "[ip1, ip2, ip1]" nybbleCodec newAddressTree 3] h
  show ?thesis by simp
qed

section \<open>The integer returned with an error\<close>

text \<open>
  C10. Whenever \<open>CountIPsInRange\<close> returns an error, the integer returned with it is
  \<open>-1\<close>; and for every prefix whose bit length is not a multiple of 4 it does return
  an error, with \<open>-1\<close>.
\<close>

theorem C10_count_error_sentinel:
  "(CountIPsInRange A t P = Inr (n, Some e) \<longrightarrow> n = - 1)
   \<and> (MaskOnes P mod 4 \<noteq> 0 \<longrightarrow>
        CountIPsInRange A t P = Inr (- 1, Some (UnalignedPrefix (MaskOnes P))))"
  by (auto simp: CountIPsInRange_def getSeekNybbles_def Let_def
      split: if_splits sum.splits option.splits bool.splits prod.splits)

theorem C10_count_error_sentinel_witness:
  "MaskOnes \<lparr>IP = ip1, MaskOnes = 6\<rparr> mod 4 \<noteq> 0
   \<and> CountIPsInRange nybbleCodec exampleTree \<lparr>IP = ip1, MaskOnes = 6\<rparr>
       = Inr (- 1, Some (UnalignedPrefix 6))"
proof -
  have h: "MaskOnes \<lparr>IP = ip1, MaskOnes = 6\<rparr> mod 4 \<noteq> 0" by simp
  from C10_count_error_sentinel
         [of nybbleCodec exampleTree "\<lparr>IP = ip1, MaskOnes = 6\<rparr>" "- 1" "UnalignedPrefix 6"] h
  show ?thesis by simp
qed

section \<open>Trees built by insertion\<close>

subsection \<open>Paths through a children map\<close>

lemma pathsBelow_Suc: "pathsBelow (Suc n) node = childPaths n (nodeChildren node)"
  by (simp add: childPaths_def)

lemma nodeInv_Suc:
  "nodeInv (Suc n) node \<longleftrightarrow>
     n \<le> 30 \<and> Depth node = of_nat (30 - n) \<and> childInv n (nodeChildren node) \<and>
     nodeChildrenCount node = int (length (childPaths n (nodeChildren node)))"
  by (auto simp: childInv_def childPaths_def)

declare pathsBelow.simps(2) [simp del]
declare nodeInv.simps(2) [simp del]

lemma childPaths_Nil [simp]: "childPaths n [] = []"
  by (simp add: childPaths_def)

lemma childPaths_Cons [simp]:
  "childPaths n ((k, v) # ch) = map ((#) k) (pathsBelow n v) @ childPaths n ch"
  by (simp add: childPaths_def)

lemma childInv_Nil [simp]: "childInv n []"
  by (simp add: childInv_def)

lemma childInv_Cons:
  "childInv n ((k, v) # ch) \<longleftrightarrow> k \<notin> fst ` set ch \<and> nodeInv n v \<and> childInv n ch"
  by (auto simp: childInv_def)

lemma childInv_lookup:
  "childInv n ch \<Longrightarrow> map_of ch c = Some x \<Longrightarrow> nodeInv n x"
  by (auto simp: childInv_def dest: map_of_SomeD)

lemma childInv_update:
  "childInv n ch \<Longrightarrow> nodeInv n v' \<Longrightarrow> childInv n (AList.update c v' ch)"
proof (induction ch)
  case Nil
  then show ?case by (simp add: childInv_def)
next
  case (Cons p ch)
  obtain k v where p: "p = (k, v)" by (cases p)
  from Cons show ?case
    by (auto simp: p childInv_Cons dom_update)
qed

lemma head_not_in_childPaths:
  "c \<notin> fst ` set ch \<Longrightarrow> c # s \<notin> set (childPaths n ch)"
  by (induction ch) (auto simp: childPaths_def)

lemma childPaths_member:
  "distinct (map fst ch) \<Longrightarrow>
   c # s \<in> set (childPaths n ch) \<longleftrightarrow>
     (case map_of ch c of None \<Rightarrow> False | Some x \<Rightarrow> s \<in> set (pathsBelow n x))"
proof (induction ch)
  case Nil
  show ?case by simp
next
  case (Cons p ch)
  obtain k v where p: "p = (k, v)" by (cases p)
  show ?case
  proof (cases "k = c")
    case True
    with Cons.prems p have "c \<notin> fst ` set ch" by simp
    from head_not_in_childPaths [OF this] True show ?thesis by (auto simp: p)
  next
    case False
    with Cons show ?thesis by (auto simp: p)
  qed
qed

lemma mset_childPaths_update:
  "mset (childPaths n (AList.update c v' ch))
     + mset (map ((#) c) (case map_of ch c of None \<Rightarrow> [] | Some x \<Rightarrow> pathsBelow n x))
   = mset (childPaths n ch) + mset (map ((#) c) (pathsBelow n v'))"
proof (induction ch)
  case Nil
  show ?case by simp
next
  case (Cons p ch)
  obtain k v where p: "p = (k, v)" by (cases p)
  from Cons show ?case by (auto simp: p)
qed

subsection \<open>One insertion\<close>

lemma depth_succ: "m \<le> 30 \<Longrightarrow> (of_nat (30 - m) :: 8 word) + 1 = of_nat (31 - m)"
proof -
  assume "m \<le> 30"
  then have "31 - m = Suc (30 - m)" by simp
  then show ?thesis by simp
qed

lemma depth_not_31: "k \<le> 30 \<Longrightarrow> (of_nat k :: 8 word) \<noteq> 31"
proof
  assume k: "k \<le> 30" and e: "(of_nat k :: 8 word) = 31"
  from e have "unat (of_nat k :: 8 word) = unat (31 :: 8 word)" by simp
  with k show False by (simp add: unat_of_nat)
qed

lemma nodeInv_new_Suc:
  "m \<le> 30 \<Longrightarrow> nodeInv (Suc m) (newAddressTreeNode (of_nat (30 - m)))"
  by (simp add: newAddressTreeNode_def nodeInv_Suc)

text \<open>
  One step of insertion, on a children map whose nodes have \<open>n\<close> levels below them: the
  child under the first symbol, or a new node, takes the remaining symbols, and the
  paths through the map gain exactly the inserted one.
\<close>

lemma insert_step:
  assumes "childInv n ch" and "length cs = n" and "n \<le> 31"
    and "c # cs \<notin> set (childPaths n ch)"
  shows "childInv n (AList.update c
            (addNybbles (case map_of ch c of
                           None \<Rightarrow> newAddressTreeNode (of_nat (31 - n)) | Some x \<Rightarrow> x) cs) ch)
       \<and> mset (childPaths n (AList.update c
            (addNybbles (case map_of ch c of
                           None \<Rightarrow> newAddressTreeNode (of_nat (31 - n)) | Some x \<Rightarrow> x) cs) ch))
         = add_mset (c # cs) (mset (childPaths n ch))"
  using assms
proof (induction cs arbitrary: n c ch)
  case Nil
  then have n: "n = 0" by simp
  from Nil.prems(1) have d: "distinct (map fst ch)" by (simp add: childInv_def)
  from Nil.prems(4) childPaths_member [OF d, of c "[]" n]
  have none: "map_of ch c = None" by (cases "map_of ch c") (auto simp: n)
  have inv: "nodeInv 0 (newAddressTreeNode (of_nat 31))"
    by (simp add: newAddressTreeNode_def)
  from mset_childPaths_update [of 0 c "newAddressTreeNode (of_nat 31)" ch]
  have m: "mset (childPaths 0 (AList.update c (newAddressTreeNode (of_nat 31)) ch))
             = add_mset [c] (mset (childPaths 0 ch))"
    by (simp add: none)
  from childInv_update [OF Nil.prems(1) [unfolded n] inv, of c] m
  show ?case by (simp add: n none)
next
  case (Cons c2 cs2)
  then obtain m where n: "n = Suc m" and l: "length cs2 = m" and m30: "m \<le> 30"
    by (cases n) auto
  define child where "child = (case map_of ch c of
                           None \<Rightarrow> newAddressTreeNode (of_nat (31 - n)) | Some x \<Rightarrow> x)"
  define old where "old = (case map_of ch c of None \<Rightarrow> [] | Some x \<Rightarrow> pathsBelow n x)"
  from Cons.prems(1) have d: "distinct (map fst ch)" by (simp add: childInv_def)
  have cinv: "nodeInv (Suc m) child"
  proof (cases "map_of ch c")
    case None
    have e: "31 - n = 30 - m" by (simp add: n)
    have "child = newAddressTreeNode (of_nat (30 - m))"
      unfolding child_def None e by simp
    with nodeInv_new_Suc [OF m30] show ?thesis by (simp only:)
  next
    case (Some x)
    have "child = x" unfolding child_def Some by simp
    with childInv_lookup [OF Cons.prems(1) Some] show ?thesis by (simp only: n)
  qed
  have old_eq: "old = childPaths m (nodeChildren child)"
    by (cases "map_of ch c")
       (simp_all add: old_def child_def n newAddressTreeNode_def pathsBelow_Suc)
  from Cons.prems(4) childPaths_member [OF d, of c "c2 # cs2" n]
  have notin: "c2 # cs2 \<notin> set (childPaths m (nodeChildren child))"
    unfolding old_eq [symmetric] old_def by (cases "map_of ch c") auto
  from cinv have chinv: "childInv m (nodeChildren child)"
    and cnt: "nodeChildrenCount child = int (length (childPaths m (nodeChildren child)))"
    and dep: "Depth child = of_nat (30 - m)"
    by (simp_all add: nodeInv_Suc)
  from m30 have m31: "m \<le> 31" by simp
  define gch where "gch = AList.update c2
      (addNybbles (case map_of (nodeChildren child) c2 of
                     None \<Rightarrow> newAddressTreeNode (of_nat (31 - m)) | Some x \<Rightarrow> x) cs2)
      (nodeChildren child)"
  from Cons.IH [OF chinv l m31 notin]
  have g1: "childInv m gch"
    and g2: "mset (childPaths m gch)
               = add_mset (c2 # cs2) (mset (childPaths m (nodeChildren child)))"
    by (simp_all add: gch_def)
  have add: "addNybbles child (c2 # cs2)
               = AddressTreeNode (nodeChildrenCount child + 1) gch (Depth child)"
  proof -
    from dep depth_succ [OF m30] have e: "Depth child + 1 = of_nat (31 - m)" by (simp only:)
    show ?thesis unfolding addNybbles.simps Let_def gch_def e by (rule refl)
  qed
  from g2 have "size (mset (childPaths m gch))
                  = size (add_mset (c2 # cs2) (mset (childPaths m (nodeChildren child))))"
    by simp
  then have len: "length (childPaths m gch) = Suc (length (childPaths m (nodeChildren child)))"
    by simp
  have ninv: "nodeInv n (addNybbles child (c2 # cs2))"
    unfolding add n nodeInv_Suc using g1 cnt dep m30 len by simp
  have pb: "mset (pathsBelow n (addNybbles child (c2 # cs2))) = add_mset (c2 # cs2) (mset old)"
    unfolding add n pathsBelow_Suc using g2 old_eq by simp
  from mset_childPaths_update [of n c "addNybbles child (c2 # cs2)" ch]
  have "mset (childPaths n (AList.update c (addNybbles child (c2 # cs2)) ch))
          + mset (map ((#) c) old)
        = mset (childPaths n ch) + mset (map ((#) c) (pathsBelow n (addNybbles child (c2 # cs2))))"
    by (simp add: old_def)
  also have "mset (map ((#) c) (pathsBelow n (addNybbles child (c2 # cs2))))
        = add_mset (c # c2 # cs2) (mset (map ((#) c) old))"
    using pb by (metis image_mset_add_mset mset_map)
  finally have "mset (childPaths n (AList.update c (addNybbles child (c2 # cs2)) ch))
        = add_mset (c # c2 # cs2) (mset (childPaths n ch))"
    by simp
  with childInv_update [OF Cons.prems(1) ninv, of c]
  show ?case by (simp add: child_def)
qed

subsection \<open>Seeking a node and listing its addresses\<close>

lemma seekNode_inv:
  "nodeInv n node \<Longrightarrow> seekNode node p = Some nd \<Longrightarrow>
     length p \<le> n \<and> nodeInv (n - length p) nd"
proof (induction p arbitrary: n node)
  case Nil
  then show ?case by simp
next
  case (Cons c p)
  show ?case
  proof (cases n)
    case 0
    with Cons.prems show ?thesis by simp
  next
    case (Suc m)
    from Cons.prems(2) obtain x where x: "map_of (nodeChildren node) c = Some x"
      and s: "seekNode x p = Some nd"
      by (auto split: option.splits)
    from Cons.prems(1) have "childInv m (nodeChildren node)" by (simp add: Suc nodeInv_Suc)
    from childInv_lookup [OF this x] have "nodeInv m x" .
    from Cons.IH [OF this s] show ?thesis by (simp add: Suc)
  qed
qed

lemma seekNode_paths:
  "nodeInv n node \<Longrightarrow> length p = n \<Longrightarrow>
     seekNode node p \<noteq> None \<longleftrightarrow> p \<in> set (pathsBelow n node)"
proof (induction p arbitrary: n node)
  case Nil
  then show ?case by simp
next
  case (Cons c p)
  then obtain m where n: "n = Suc m" and l: "length p = m" by (cases n) auto
  from Cons.prems(1) have ci: "childInv m (nodeChildren node)" by (simp add: n nodeInv_Suc)
  then have d: "distinct (map fst (nodeChildren node))" by (simp add: childInv_def)
  show ?case
  proof (cases "map_of (nodeChildren node) c")
    case None
    with childPaths_member [OF d, of c p m] show ?thesis by (simp add: n pathsBelow_Suc)
  next
    case (Some x)
    from Cons.IH [OF childInv_lookup [OF ci Some] l]
      childPaths_member [OF d, of c p m] Some
    show ?thesis by (simp add: n pathsBelow_Suc)
  qed
qed

text \<open>The full-depth paths with a given prefix are the paths below the node it leads to.\<close>

lemma filter_childPaths:
  "distinct (map fst ch) \<Longrightarrow>
   filter (\<lambda>s. take (Suc k) s = c # p) (childPaths n ch)
     = (case map_of ch c of
          None \<Rightarrow> []
        | Some x \<Rightarrow> map ((#) c) (filter (\<lambda>s. take k s = p) (pathsBelow n x)))"
proof (induction ch)
  case Nil
  show ?case by simp
next
  case (Cons e ch)
  obtain k' v where e: "e = (k', v)" by (cases e)
  show ?case
  proof (cases "k' = c")
    case True
    with Cons.prems e have "c \<notin> fst ` set ch" by simp
    then have "map_of ch c = None" by (simp add: map_of_eq_None_iff)
    with Cons e True show ?thesis by (simp add: filter_map comp_def)
  next
    case False
    then have "filter (\<lambda>s. take (Suc k) s = c # p) (map ((#) k') (pathsBelow n v)) = []"
      by (simp add: filter_empty_conv)
    with Cons e False show ?thesis by simp
  qed
qed

lemma filter_pathsBelow:
  "nodeInv n node \<Longrightarrow> seekNode node p = Some nd \<Longrightarrow>
   filter (\<lambda>s. take (length p) s = p) (pathsBelow n node)
     = map ((@) p) (pathsBelow (n - length p) nd)"
proof (induction p arbitrary: n node)
  case Nil
  then show ?case by simp
next
  case (Cons c p)
  from seekNode_inv [OF Cons.prems] obtain m where n: "n = Suc m" by (cases n) auto
  from Cons.prems(2) obtain x where x: "map_of (nodeChildren node) c = Some x"
      and s: "seekNode x p = Some nd"
    by (auto split: option.splits)
  from Cons.prems(1) have ci: "childInv m (nodeChildren node)" by (simp add: n nodeInv_Suc)
  then have d: "distinct (map fst (nodeChildren node))" by (simp add: childInv_def)
  from Cons.IH [OF childInv_lookup [OF ci x] s] filter_childPaths [OF d, of "length p" c p m]
  show ?case by (simp add: n pathsBelow_Suc x)
qed

lemma distinct_childPaths:
  "distinct (map fst ch) \<Longrightarrow> (\<forall>(k, v) \<in> set ch. distinct (pathsBelow n v))
     \<Longrightarrow> distinct (childPaths n ch)"
proof (induction ch)
  case Nil
  show ?case by simp
next
  case (Cons e ch)
  obtain k v where e: "e = (k, v)" by (cases e)
  from Cons.prems e have "k \<notin> fst ` set ch" by simp
  then have "\<forall>s. k # s \<notin> set (childPaths n ch)" by (simp add: head_not_in_childPaths)
  with Cons e show ?case by (auto simp: distinct_map)
qed

lemma distinct_pathsBelow: "nodeInv n node \<Longrightarrow> distinct (pathsBelow n node)"
proof (induction n arbitrary: node)
  case 0
  show ?case by simp
next
  case (Suc n)
  from Suc.prems have ci: "childInv n (nodeChildren node)" by (simp add: nodeInv_Suc)
  then have "\<forall>(k, v) \<in> set (nodeChildren node). distinct (pathsBelow n v)"
    using Suc.IH by (auto simp: childInv_def)
  with ci show ?case by (simp add: pathsBelow_Suc distinct_childPaths childInv_def)
qed

lemma getAllIPs_paths:
  "nodeInv n node \<Longrightarrow>
   getAllIPs A node parentNybbles
     = map (\<lambda>q. NybblesToIP A (parentNybbles @ q)) (pathsBelow n node)"
proof (induction n arbitrary: node parentNybbles)
  case 0
  then show ?case by (cases node) simp
next
  case (Suc n)
  obtain cnt ch d where node: "node = AddressTreeNode cnt ch d" by (cases node)
  from Suc.prems have ci: "childInv n ch" and n30: "n \<le> 30" and d: "d = of_nat (30 - n)"
    by (simp_all add: nodeInv_Suc node)
  from n30 have "30 - n \<le> 30" by simp
  from depth_not_31 [OF this] d have d31: "d \<noteq> 31" by simp
  have "concat (map (\<lambda>(k, v). getAllIPs A v (parentNybbles @ [k])) ch)
          = map (\<lambda>q. NybblesToIP A (parentNybbles @ q)) (childPaths n ch)"
    using ci
  proof (induction ch)
    case Nil
    show ?case by simp
  next
    case (Cons e ch)
    obtain k v where e: "e = (k, v)" by (cases e)
    from Cons.prems have "nodeInv n v" and "childInv n ch" by (simp_all add: e childInv_Cons)
    with Cons.IH Suc.IH [of v "parentNybbles @ [k]"] show ?case by (simp add: e)
  qed
  with d31 show ?case by (simp add: node pathsBelow_Suc)
qed

subsection \<open>The invariant of the whole tree\<close>

lemma treeInv_new: "treeInv newAddressTree"
  by (simp add: treeInv_def newAddressTree_def fullDepthPaths_def)

lemma seekChild_cases:
  "seekChildByNybbles t (c # cs) = Inr (Some node, None) \<longleftrightarrow>
     (\<exists>x. map_of (Children t) c = Some x \<and> seekNode x cs = Some node)"
  by (auto simp: seekChildByNybbles_def split: option.splits)

lemma seekChild_paths:
  assumes "treeInv t" and "length cs = 31"
  shows "(\<exists>node. seekChildByNybbles t (c # cs) = Inr (Some node, None))
           \<longleftrightarrow> c # cs \<in> set (fullDepthPaths t)"
proof -
  from assms(1) have ci: "childInv 31 (Children t)" by (simp add: treeInv_def)
  then have d: "distinct (map fst (Children t))" by (simp add: childInv_def)
  show ?thesis
  proof (cases "map_of (Children t) c")
    case None
    with childPaths_member [OF d, of c cs 31] show ?thesis
      by (simp add: seekChild_cases fullDepthPaths_def)
  next
    case (Some x)
    from seekNode_paths [OF childInv_lookup [OF ci Some] assms(2)]
      childPaths_member [OF d, of c cs 31] Some
    show ?thesis by (auto simp: seekChild_cases fullDepthPaths_def)
  qed
qed

lemma AddIP_inv:
  assumes inv: "treeInv t" and len: "length (GetNybblesFromIP A a 32) = 32"
  shows "\<exists>t' b. AddIP A t a = (t', Inr b) \<and> treeInv t'
           \<and> set (fullDepthPaths t') = insert (GetNybblesFromIP A a 32) (set (fullDepthPaths t))"
proof -
  from len obtain c cs where s: "GetNybblesFromIP A a 32 = c # cs" and ns: "cs \<noteq> []"
    by (rule long_list_cases)
  from len s have l: "length cs = 31" by simp
  note u = AddIP_unfold [OF s ns, of t]
  note m = seekChild_paths [OF inv l, of c]
  show ?thesis
  proof (cases "c # cs \<in> set (fullDepthPaths t)")
    case True
    with m u have "AddIP A t a = (t, Inr False)" by simp
    with inv True show ?thesis by (auto simp: s)
  next
    case False
    define ch' where "ch' = AList.update c
              (addNybbles (case map_of (Children t) c of
                             None \<Rightarrow> newAddressTreeNode 0 | Some x \<Rightarrow> x) cs)
              (Children t)"
    define t' where "t' = \<lparr>ChildrenCount = ChildrenCount t + 1, Children = ch'\<rparr>"
    from False m u have a: "AddIP A t a = (t', Inr True)" by (simp add: t'_def ch'_def)
    from inv have ci: "childInv 31 (Children t)"
      and cnt: "ChildrenCount t = int (length (childPaths 31 (Children t)))"
      by (simp_all add: treeInv_def fullDepthPaths_def)
    from False have notin: "c # cs \<notin> set (childPaths 31 (Children t))"
      by (simp add: fullDepthPaths_def)
    have z: "(of_nat (31 - 31) :: 8 word) = 0" by simp
    from insert_step [OF ci l _ notin, unfolded z]
    have i1: "childInv 31 ch'"
      and i2: "mset (childPaths 31 ch') = add_mset (c # cs) (mset (childPaths 31 (Children t)))"
      by (simp_all add: ch'_def)
    from i2 have "size (mset (childPaths 31 ch'))
                    = size (add_mset (c # cs) (mset (childPaths 31 (Children t))))" by simp
    then have len': "length (childPaths 31 ch') = Suc (length (childPaths 31 (Children t)))"
      by simp
    from i2 have "set_mset (mset (childPaths 31 ch'))
                    = set_mset (add_mset (c # cs) (mset (childPaths 31 (Children t))))" by simp
    then have set': "set (childPaths 31 ch') = insert (c # cs) (set (childPaths 31 (Children t)))"
      by simp
    have "treeInv t'" using i1 len' cnt by (simp add: treeInv_def t'_def fullDepthPaths_def)
    moreover have "set (fullDepthPaths t') = insert (c # cs) (set (fullDepthPaths t))"
      using set' by (simp add: t'_def fullDepthPaths_def)
    ultimately show ?thesis using a by (auto simp: s)
  qed
qed

lemma AddIPs_loop_inv:
  assumes "treeInv t" and "\<forall>a\<in>set toAdd. length (GetNybblesFromIP A a 32) = 32"
    and "AddIPs_loop A emitFreq t i added skipped toAdd = (t', Inr r)"
  shows "treeInv t' \<and>
         set (fullDepthPaths t')
           = set (fullDepthPaths t) \<union> (\<lambda>a. GetNybblesFromIP A a 32) ` set toAdd"
  using assms
proof (induction toAdd arbitrary: t i added skipped)
  case Nil
  then show ?case by simp
next
  case (Cons a rest)
  from Cons.prems(2) have la: "length (GetNybblesFromIP A a 32) = 32"
    and lr: "\<forall>a\<in>set rest. length (GetNybblesFromIP A a 32) = 32" by simp_all
  from AddIP_inv [OF Cons.prems(1) la] obtain t1 b where
    a: "AddIP A t a = (t1, Inr b)" and inv1: "treeInv t1"
    and p1: "set (fullDepthPaths t1) = insert (GetNybblesFromIP A a 32) (set (fullDepthPaths t))"
    by blast
  from Cons.prems(3) have nz: "emitFreq \<noteq> 0" by (auto split: if_splits)
  show ?case
  proof (cases b)
    case True
    with Cons.prems(3) a nz
    have "AddIPs_loop A emitFreq t1 (i + 1) (added + 1) skipped rest = (t', Inr r)" by simp
    from Cons.IH [OF inv1 lr this] p1 show ?thesis by auto
  next
    case False
    with Cons.prems(3) a nz
    have "AddIPs_loop A emitFreq t1 (i + 1) added (skipped + 1) rest = (t', Inr r)" by simp
    from Cons.IH [OF inv1 lr this] p1 show ?thesis by auto
  qed
qed

lemma AddIPs_inv:
  assumes "AddIPs A newAddressTree toAdd emitFreq = (t, Inr r)"
    and "\<forall>a\<in>set toAdd. length (GetNybblesFromIP A a 32) = 32"
  shows "treeInv t"
    and "set (fullDepthPaths t) = (\<lambda>a. GetNybblesFromIP A a 32) ` set toAdd"
  using AddIPs_loop_inv [OF treeInv_new assms(2) assms(1) [unfolded AddIPs_def]]
  by (simp_all add: fullDepthPaths_def newAddressTree_def)

lemma distinct_fullDepthPaths: "treeInv t \<Longrightarrow> distinct (fullDepthPaths t)"
proof -
  assume "treeInv t"
  then have ci: "childInv 31 (Children t)" by (simp add: treeInv_def)
  then have "\<forall>(k, v) \<in> set (Children t). distinct (pathsBelow 31 v)"
    by (auto simp: childInv_def distinct_pathsBelow)
  with ci show ?thesis by (simp add: fullDepthPaths_def distinct_childPaths childInv_def)
qed

lemma concat_getAllIPs:
  "childInv n ch \<Longrightarrow>
   concat (map (\<lambda>(k, v). getAllIPs A v [k]) ch) = map (NybblesToIP A) (childPaths n ch)"
proof (induction ch)
  case Nil
  show ?case by simp
next
  case (Cons e ch)
  obtain k v where e: "e = (k, v)" by (cases e)
  from Cons.prems have "nodeInv n v" and "childInv n ch" by (simp_all add: e childInv_Cons)
  with Cons.IH getAllIPs_paths [of n v A "[k]"] show ?case by (simp add: e)
qed

lemma GetAllIPs_paths:
  assumes "treeInv t"
  shows "GetAllIPs A t = map (NybblesToIP A) (fullDepthPaths t)"
proof -
  from assms have ci: "childInv 31 (Children t)"
    and cnt: "ChildrenCount t = int (length (fullDepthPaths t))"
    by (simp_all add: treeInv_def)
  show ?thesis
  proof (cases "ChildrenCount t = 0")
    case True
    with cnt show ?thesis by (simp add: GetAllIPs_def)
  next
    case False
    with concat_getAllIPs [OF ci] show ?thesis by (simp add: GetAllIPs_def fullDepthPaths_def)
  qed
qed

text \<open>What a successful seek from the root says about the node found.\<close>

lemma seekChild_inv:
  assumes "treeInv t" and "seekChildByNybbles t p = Inr (Some node, None)"
  shows "0 < length p \<and> length p \<le> 32 \<and> nodeInv (32 - length p) node
         \<and> fullDepthPathsThrough t p = map ((@) p) (pathsBelow (32 - length p) node)"
proof -
  from assms(2) obtain c cs where p: "p = c # cs"
    by (cases p) (auto simp: seekChildByNybbles_def)
  from assms(2) obtain x where x: "map_of (Children t) c = Some x"
    and s: "seekNode x cs = Some node"
    by (auto simp: p seekChild_cases)
  from assms(1) have ci: "childInv 31 (Children t)" by (simp add: treeInv_def)
  then have d: "distinct (map fst (Children t))" by (simp add: childInv_def)
  note xi = childInv_lookup [OF ci x]
  from seekNode_inv [OF xi s] have l: "length cs \<le> 31" and ni: "nodeInv (31 - length cs) node"
    by simp_all
  from l have e: "32 - length p = 31 - length cs" by (simp add: p)
  have "fullDepthPathsThrough t p
          = map ((#) c) (filter (\<lambda>s. take (length cs) s = cs) (pathsBelow 31 x))"
    using filter_childPaths [OF d, of "length cs" c cs 31] x
    by (simp add: fullDepthPathsThrough_def fullDepthPaths_def p)
  also have "\<dots> = map ((@) p) (pathsBelow (31 - length cs) node)"
    using filter_pathsBelow [OF xi s] by (simp add: p)
  finally show ?thesis using l ni by (simp add: e) (simp add: p)
qed

section \<open>Counts and full-depth paths\<close>

text \<open>
  C3, as stated: after any sequence of insertions from an empty tree, the count of every
  node is the number of distinct full-depth paths through it, the deepest level
  included. It fails at the deepest level: in the tree built from 2001:db8::1,
  2001:db8::2 and 2001:db8::1 again, the node at the end of the 32 symbols of 2001:db8::1
  has count 0, and one full-depth path passes through it.
\<close>

theorem C3_deepest_count_counterexample:
  "AddIPs nybbleCodec newAddressTree [ip1, ip2, ip1] 1 = (exampleTree, Inr (2, 1))
   \<and> seekChildByNybbles exampleTree (to_symbols ip1 32)
       = Inr (Some (AddressTreeNode 0 [] 31), None)
   \<and> nodeChildrenCount (AddressTreeNode 0 [] 31) = 0
   \<and> length (fullDepthPathsThrough exampleTree (to_symbols ip1 32)) = 1"
  by code_simp

text \<open>
  C3, amended: after any sequence of insertions from an empty tree (with a codec that
  returns 32 symbols for each address), the full-depth paths of the tree are distinct, the
  count of the root is their number, and the count of every node above the deepest level
  is the number of full-depth paths through it. A node is reached by at most 32 symbols,
  and a node at the deepest level has count 0 while exactly one full-depth path passes
  through it: \<open>addNybbles\<close> returns on the empty remainder before its increment.
\<close>

theorem C3_count_is_paths_above_deepest:
  assumes "AddIPs A newAddressTree toAdd emitFreq = (t, Inr r)"
    and "\<forall>a\<in>set toAdd. length (GetNybblesFromIP A a 32) = 32"
  shows "distinct (fullDepthPaths t)
       \<and> ChildrenCount t = int (length (fullDepthPaths t))
       \<and> (seekChildByNybbles t p = Inr (Some node, None) \<longrightarrow>
            length p \<le> 32
            \<and> (length p < 32 \<longrightarrow>
                 nodeChildrenCount node = int (length (fullDepthPathsThrough t p)))
            \<and> (length p = 32 \<longrightarrow>
                 nodeChildrenCount node = 0 \<and> fullDepthPathsThrough t p = [p]))"
proof -
  note inv = AddIPs_inv(1) [OF assms]
  have "distinct (fullDepthPaths t)" by (rule distinct_fullDepthPaths [OF inv])
  moreover from inv have "ChildrenCount t = int (length (fullDepthPaths t))"
    by (simp add: treeInv_def)
  moreover have "length p \<le> 32
            \<and> (length p < 32 \<longrightarrow>
                 nodeChildrenCount node = int (length (fullDepthPathsThrough t p)))
            \<and> (length p = 32 \<longrightarrow>
                 nodeChildrenCount node = 0 \<and> fullDepthPathsThrough t p = [p])"
    if sk: "seekChildByNybbles t p = Inr (Some node, None)"
  proof -
    from seekChild_inv [OF inv sk] have l: "length p \<le> 32"
      and ni: "nodeInv (32 - length p) node"
      and th: "fullDepthPathsThrough t p = map ((@) p) (pathsBelow (32 - length p) node)"
      by simp_all
    have a: "nodeChildrenCount node = int (length (fullDepthPathsThrough t p))"
      if "length p < 32"
    proof -
      from that obtain m where m: "32 - length p = Suc m" by (cases "32 - length p") auto
      from ni show ?thesis unfolding th m by (simp add: nodeInv_Suc pathsBelow_Suc)
    qed
    have b: "nodeChildrenCount node = 0 \<and> fullDepthPathsThrough t p = [p]"
      if "length p = 32"
      using ni th that by simp
    from l a b show ?thesis by blast
  qed
  ultimately show ?thesis by blast
qed

theorem C3_count_is_paths_above_deepest_witness:
  "AddIPs nybbleCodec newAddressTree [ip1, ip2, ip1] 1 = (exampleTree, Inr (2, 1))
   \<and> length (GetNybblesFromIP nybbleCodec ip1 32) = 32
   \<and> length (GetNybblesFromIP nybbleCodec ip2 32) = 32
   \<and> seekChildByNybbles exampleTree (to_symbols ip1 31)
       = Inr (Some (AddressTreeNode 2 [(1, AddressTreeNode 0 [] 31),
                                       (2, AddressTreeNode 0 [] 31)] 30), None)
   \<and> length (to_symbols ip1 31) < 32
   \<and> nodeChildrenCount (AddressTreeNode 2 [(1, AddressTreeNode 0 [] 31),
                                            (2, AddressTreeNode 0 [] 31)] 30)
       = int (length (fullDepthPathsThrough exampleTree (to_symbols ip1 31)))
   \<and> seekChildByNybbles exampleTree (to_symbols ip2 32)
       = Inr (Some (AddressTreeNode 0 [] 31), None)
   \<and> length (to_symbols ip2 32) = 32
   \<and> fullDepthPathsThrough exampleTree (to_symbols ip2 32) = [to_symbols ip2 32]
   \<and> distinct (fullDepthPaths exampleTree)
   \<and> ChildrenCount exampleTree = int (length (fullDepthPaths exampleTree))"
proof -
  have b: "AddIPs nybbleCodec newAddressTree [ip1, ip2, ip1] 1 = (exampleTree, Inr (2, 1))"
    by code_simp
  have l: "\<forall>a\<in>set [ip1, ip2, ip1]. length (GetNybblesFromIP nybbleCodec a 32) = 32"
    by code_simp
  have s1: "seekChildByNybbles exampleTree (to_symbols ip1 31)
       = Inr (Some (AddressTreeNode 2 [(1, AddressTreeNode 0 [] 31),
                                       (2, AddressTreeNode 0 [] 31)] 30), None)"
    by code_simp
  have l1: "length (to_symbols ip1 31) < 32" by code_simp
  have s2: "seekChildByNybbles exampleTree (to_symbols ip2 32)
       = Inr (Some (AddressTreeNode 0 [] 31), None)"
    by code_simp
  have l2: "length (to_symbols ip2 32) = 32" by code_simp
  from C3_count_is_paths_above_deepest [OF b l, of "to_symbols ip1 31"
         "AddressTreeNode 2 [(1, AddressTreeNode 0 [] 31), (2, AddressTreeNode 0 [] 31)] 30"]
       C3_count_is_paths_above_deepest [OF b l, of "to_symbols ip2 32" "AddressTreeNode 0 [] 31"]
       b l s1 l1 s2 l2
  show ?thesis by simp
qed

section \<open>Counting and listing a prefix\<close>

text \<open>
  C5. In every tree built by insertions from the empty tree (with a codec that returns
  32 symbols for each inserted address), whenever \<open>GetIPsInRange\<close> and
  \<open>CountIPsInRange\<close> both return without error on a prefix, the count is the length of
  the list. No bound on the prefix length is needed: both succeed only on aligned
  prefixes, and a prefix longer than the tree is deep resolves to no node.
\<close>

theorem C5_count_is_length_of_list:
  assumes "AddIPs A newAddressTree toAdd emitFreq = (t, Inr r)"
    and "\<forall>a\<in>set toAdd. length (GetNybblesFromIP A a 32) = 32"
    and g: "GetIPsInRange A t P = Inr (ips, None)"
    and c: "CountIPsInRange A t P = Inr (n, None)"
  shows "n = int (length ips)"
proof -
  note inv = AddIPs_inv(1) [OF assms(1,2)]
  from g obtain nyb where sn: "getSeekNybbles A P = (nyb, None)"
    by (cases "getSeekNybbles A P") (auto simp: GetIPsInRange_def split: option.splits)
  show ?thesis
  proof (cases "nyb = []")
    case True
    from g have "ips = GetAllIPs A t" by (simp add: GetIPsInRange_def sn True)
    moreover from c have "n = ChildrenCount t" by (simp add: CountIPsInRange_def sn True)
    ultimately show ?thesis using inv by (simp add: GetAllIPs_paths treeInv_def)
  next
    case False
    with g obtain node where sk: "seekChildByNybbles t nyb = Inr (Some node, None)"
      and ips: "ips = getAllIPs A node nyb"
      by (auto simp: GetIPsInRange_def sn split: sum.splits option.splits prod.splits)
    from seekChild_inv [OF inv sk] have l: "length nyb \<le> 32"
      and ni: "nodeInv (32 - length nyb) node" by simp_all
    from ips have lips: "length ips = length (pathsBelow (32 - length nyb) node)"
      by (simp add: getAllIPs_paths [OF ni])
    show ?thesis
    proof (cases "length nyb = 32")
      case True
      from False obtain c cs where p: "nyb = c # cs" by (cases nyb) auto
      with True have "cs \<noteq> []" by auto
      from containsIPByNybbles_seek [OF this, of t c] sk
      have "containsIPByNybbles t nyb = Inr True" by (auto simp: p)
      with c False True have "n = 1" by (simp add: CountIPsInRange_def sn)
      with lips True show ?thesis by simp
    next
      case F: False
      with l obtain m where m: "32 - length nyb = Suc m" by (cases "32 - length nyb") auto
      from c False F sk have "n = nodeChildrenCount node"
        by (simp add: CountIPsInRange_def sn)
      with ni lips show ?thesis unfolding m by (simp add: nodeInv_Suc pathsBelow_Suc)
    qed
  qed
qed

theorem C5_count_is_length_of_list_witness:
  "AddIPs nybbleCodec newAddressTree [ip1, ip2, ip1] 1 = (exampleTree, Inr (2, 1))
   \<and> length (GetNybblesFromIP nybbleCodec ip1 32) = 32
   \<and> length (GetNybblesFromIP nybbleCodec ip2 32) = 32
   \<and> GetIPsInRange nybbleCodec exampleTree \<lparr>IP = ip3, MaskOnes = 32\<rparr>
       = Inr ([ip1, ip2], None)
   \<and> CountIPsInRange nybbleCodec exampleTree \<lparr>IP = ip3, MaskOnes = 32\<rparr> = Inr (2, None)
   \<and> (2::int) = int (length [ip1, ip2])"
proof -
  have b: "AddIPs nybbleCodec newAddressTree [ip1, ip2, ip1] 1 = (exampleTree, Inr (2, 1))"
    by code_simp
  have l: "\<forall>a\<in>set [ip1, ip2, ip1]. length (GetNybblesFromIP nybbleCodec a 32) = 32"
    by code_simp
  have g: "GetIPsInRange nybbleCodec exampleTree \<lparr>IP = ip3, MaskOnes = 32\<rparr>
             = Inr ([ip1, ip2], None)"
    by code_simp
  have c: "CountIPsInRange nybbleCodec exampleTree \<lparr>IP = ip3, MaskOnes = 32\<rparr>
             = Inr (2, None)"
    by code_simp
  from C5_count_is_length_of_list [OF b l g c] b l g c show ?thesis by simp
qed

section \<open>Round trip\<close>

text \<open>
  C8. For every list \<open>S\<close> of addresses, in any order, and every non-zero progress
  interval, given a codec that returns 32 symbols for each address of \<open>S\<close> and maps them
  back to that address, \<open>CreateFromAddresses\<close> returns a tree, and \<open>GetAllIPs\<close> of that
  tree lists exactly the elements of \<open>S\<close>, each once.
\<close>

theorem C8_all_addresses_round_trip:
  assumes nz: "emitFreq \<noteq> 0"
    and codec: "\<forall>a\<in>set S. length (GetNybblesFromIP A a 32) = 32
                        \<and> NybblesToIP A (GetNybblesFromIP A a 32) = a"
  shows "\<exists>t. CreateFromAddresses A S emitFreq = Inr t
            \<and> set (GetAllIPs A t) = set S \<and> distinct (GetAllIPs A t)"
proof -
  from codec have lens: "\<forall>a\<in>set S. length (GetNybblesFromIP A a 32) = 32" by simp
  from AddIPs_loop_total [OF nz lens, of newAddressTree 0 0 0]
  obtain t r where b: "AddIPs A newAddressTree S emitFreq = (t, Inr r)"
    by (auto simp: AddIPs_def)
  then have cr: "CreateFromAddresses A S emitFreq = Inr t"
    by (simp add: CreateFromAddresses_def)
  note inv = AddIPs_inv(1) [OF b lens]
  note paths = AddIPs_inv(2) [OF b lens]
  have g: "GetAllIPs A t = map (NybblesToIP A) (fullDepthPaths t)"
    by (rule GetAllIPs_paths [OF inv])
  have "set (GetAllIPs A t) = (\<lambda>a. NybblesToIP A (GetNybblesFromIP A a 32)) ` set S"
    unfolding g by (simp add: paths image_image)
  also have "\<dots> = set S" using codec by force
  finally have s: "set (GetAllIPs A t) = set S" .
  have "inj_on (NybblesToIP A) (set (fullDepthPaths t))"
    unfolding paths using codec by (auto simp: inj_on_def)
  with distinct_fullDepthPaths [OF inv] have "distinct (GetAllIPs A t)"
    unfolding g by (simp add: distinct_map)
  with cr s show ?thesis by blast
qed

theorem C8_all_addresses_round_trip_witness:
  "(1::int) \<noteq> 0
   \<and> length (GetNybblesFromIP nybbleCodec ip2 32) = 32
   \<and> NybblesToIP nybbleCodec (GetNybblesFromIP nybbleCodec ip2 32) = ip2
   \<and> length (GetNybblesFromIP nybbleCodec ip1 32) = 32
   \<and> NybblesToIP nybbleCodec (GetNybblesFromIP nybbleCodec ip1 32) = ip1
   \<and> (\<exists>t. CreateFromAddresses nybbleCodec [ip2, ip1, ip2] 1 = Inr t
          \<and> set (GetAllIPs nybbleCodec t) = set [ip2, ip1, ip2]
          \<and> distinct (GetAllIPs nybbleCodec t))"
proof -
  have nz: "(1::int) \<noteq> 0" by simp
  have h: "\<forall>a\<in>set [ip2, ip1, ip2].
             length (GetNybblesFromIP nybbleCodec a 32) = 32
             \<and> NybblesToIP nybbleCodec (GetNybblesFromIP nybbleCodec a 32) = a"
    by code_simp
  from C8_all_addresses_round_trip [OF nz h] h show ?thesis by simp
qed

end
